theory Spec2Isabelle
  imports Complex_Main "HOL-Library.Word" "HOL-Library.Signed_Division"
begin

section \<open>Enforcement engine (backend/app/firewall\_enforce.h)\<close>

text \<open>
  \<^verbatim>\<open>enum class FirewallAction : uint8_t { PASS = 0, DROP = 1, REJECT = 2, RATE_LIMIT = 3 }\<close>
\<close>

datatype FirewallAction = PASS | DROP | REJECT | RATE_LIMIT

text \<open>\<^verbatim>\<open>struct PacketDecision { FirewallAction action; std::string rule_id; }\<close>\<close>

record PacketDecision =
  action :: FirewallAction
  rule_id :: string

text \<open>\<^verbatim>\<open>using FlowKey = uint64_t\<close>\<close>

type_synonym FlowKey = "64 word"

text \<open>
  The two data members of \<^verbatim>\<open>SimpleFlowEnforcer\<close>, \<^verbatim>\<open>default_action_\<close> (an
  atomic \<^verbatim>\<open>FirewallAction\<close>) and \<^verbatim>\<open>enforced_flows_\<close> (a
  \<^verbatim>\<open>std::map<FlowKey, FirewallAction>\<close>). A name may not end in an underscore here,
  so the members are written without it. The member functions take the object as their
  first argument and, where they mutate it, return the new object.
\<close>

record SimpleFlowEnforcer =
  default_action :: FirewallAction
  enforced_flows :: "FlowKey \<rightharpoonup> FirewallAction"

text \<open>The object as the in-class initialisers build it: default action PASS, empty map.\<close>

definition SimpleFlowEnforcer_init :: SimpleFlowEnforcer where
  "SimpleFlowEnforcer_init = \<lparr>default_action = PASS, enforced_flows = Map.empty\<rparr>"

text \<open>
  \<^verbatim>\<open>get_decision(const uint8_t* packet_data, uint16_t len)\<close>: the jumbo check, then
  (where the source has only the comment \<^verbatim>\<open>TODO: Look up FlowKey in enforced_flows_ map\<close>)
  the default action. The packet bytes are never read.
\<close>

definition get_decision :: "SimpleFlowEnforcer \<Rightarrow> 8 word list \<Rightarrow> 16 word \<Rightarrow> PacketDecision" where
  "get_decision this packet_data len =
     (if len > 1500 then \<lparr>action = DROP, rule_id = ''JUMBO_PACKET''\<rparr>
      else \<lparr>action = default_action this, rule_id = ''DEFAULT_POLICY''\<rparr>)"

text \<open>
  \<^verbatim>\<open>enforce_flow_policy(FlowKey flow_id, FirewallAction action)\<close>:
  \<^verbatim>\<open>enforced_flows_[flow_id] = action\<close>. The line it prints on the console is not part
  of the object and is left out.
\<close>

definition enforce_flow_policy :: "FlowKey \<Rightarrow> FirewallAction \<Rightarrow> SimpleFlowEnforcer \<Rightarrow> SimpleFlowEnforcer" where
  "enforce_flow_policy flow_id act this =
     this\<lparr>enforced_flows := (enforced_flows this)(flow_id \<mapsto> act)\<rparr>"

definition get_default_action :: "SimpleFlowEnforcer \<Rightarrow> FirewallAction" where
  "get_default_action this = default_action this"

definition set_default_action :: "FirewallAction \<Rightarrow> SimpleFlowEnforcer \<Rightarrow> SimpleFlowEnforcer" where
  "set_default_action act this = this\<lparr>default_action := act\<rparr>"


section \<open>Ring buffer (\<^verbatim>\<open>ConcurrentRingBuffer\<close> in backend/src/sniffer\_engine.cpp)\<close>

text \<open>
  Undefined behaviour of the C++ code is a value of the model: a remainder by zero, and an
  index outside a \<^verbatim>\<open>std::vector\<close> or outside the memory a pointer refers to.
\<close>

datatype fault = DivisionByZero | OutOfBounds

text \<open>
  The members \<^verbatim>\<open>capacity_\<close>, \<^verbatim>\<open>buffer_\<close>, \<^verbatim>\<open>head_\<close> and \<^verbatim>\<open>tail_\<close>.
  \<^verbatim>\<open>size_t\<close> is a 64-bit unsigned integer: the indices are natural numbers and every
  addition is reduced modulo \<open>2 ^ 64\<close>, as the machine does. The model is sequential: the
  atomic loads and stores are plain reads and writes of the fields.
\<close>

record 'a ConcurrentRingBuffer =
  capacity :: nat
  buffer :: "'a list"
  head :: nat
  tail :: nat

text \<open>
  The constructor \<^verbatim>\<open>ConcurrentRingBuffer(size_t capacity)\<close>: \<^verbatim>\<open>buffer_(capacity)\<close>
  holds \<open>capacity\<close> value-initialised elements; \<open>z\<close> is that value \<^verbatim>\<open>T()\<close>.
\<close>

definition ConcurrentRingBuffer_new :: "nat \<Rightarrow> 'a \<Rightarrow> 'a ConcurrentRingBuffer" where
  "ConcurrentRingBuffer_new c z = \<lparr>capacity = c, buffer = replicate c z, head = 0, tail = 0\<rparr>"

text \<open>
  \<^verbatim>\<open>bool push(const T& item)\<close>. The result is the returned flag and the buffer after
  the call.
\<close>

definition push :: "'a \<Rightarrow> 'a ConcurrentRingBuffer \<Rightarrow> fault + bool \<times> 'a ConcurrentRingBuffer" where
  "push item this =
     (let current_tail = tail this in
      if capacity this = 0 then Inl DivisionByZero
      else let next_tail = ((current_tail + 1) mod 2 ^ 64) mod capacity this in
        if next_tail = head this then Inr (False, this)
        else if length (buffer this) \<le> current_tail then Inl OutOfBounds
        else Inr (True, this\<lparr>buffer := (buffer this)[current_tail := item], tail := next_tail\<rparr>))"

text \<open>
  \<^verbatim>\<open>bool pop(T& item)\<close>. The result \<open>Some x\<close> stands for the return value
  \<^verbatim>\<open>true\<close> with \<open>x\<close> assigned to \<^verbatim>\<open>item\<close>, \<open>None\<close> for \<^verbatim>\<open>false\<close>
  (\<^verbatim>\<open>item\<close> is then not assigned).
\<close>

definition pop :: "'a ConcurrentRingBuffer \<Rightarrow> fault + 'a option \<times> 'a ConcurrentRingBuffer" where
  "pop this =
     (let current_head = head this in
      if current_head = tail this then Inr (None, this)
      else if length (buffer this) \<le> current_head then Inl OutOfBounds
      else if capacity this = 0 then Inl DivisionByZero
      else Inr (Some (buffer this ! current_head),
                this\<lparr>head := ((current_head + 1) mod 2 ^ 64) mod capacity this\<rparr>))"

text \<open>
  Consecutive calls by one caller: \<open>push_all xs\<close> pushes the elements of \<open>xs\<close> in order
  and collects the returned flags; \<open>pop_n n\<close> calls \<^verbatim>\<open>pop\<close> \<open>n\<close> times and collects
  the results.
\<close>

fun push_all :: "'a list \<Rightarrow> 'a ConcurrentRingBuffer \<Rightarrow> fault + bool list \<times> 'a ConcurrentRingBuffer" where
  "push_all [] rb = Inr ([], rb)"
| "push_all (x # xs) rb =
     (case push x rb of
        Inl e \<Rightarrow> Inl e
      | Inr (ok, rb') \<Rightarrow>
          (case push_all xs rb' of Inl e \<Rightarrow> Inl e | Inr (oks, rb'') \<Rightarrow> Inr (ok # oks, rb'')))"

fun pop_n :: "nat \<Rightarrow> 'a ConcurrentRingBuffer \<Rightarrow> fault + 'a option list \<times> 'a ConcurrentRingBuffer" where
  "pop_n 0 rb = Inr ([], rb)"
| "pop_n (Suc n) rb =
     (case pop rb of
        Inl e \<Rightarrow> Inl e
      | Inr (r, rb') \<Rightarrow>
          (case pop_n n rb' of Inl e \<Rightarrow> Inl e | Inr (rs, rb'') \<Rightarrow> Inr (r # rs, rb'')))"

text \<open>
  The class invariant (the capacity is positive and fits \<^verbatim>\<open>size_t\<close>, the vector has
  \<open>capacity\<close> elements, both indices are below the capacity), the number of unread
  elements, and the unread elements from the oldest to the newest.
\<close>

definition rb_inv :: "'a ConcurrentRingBuffer \<Rightarrow> bool" where
  "rb_inv rb \<longleftrightarrow> 0 < capacity rb \<and> capacity rb < 2 ^ 64 \<and> length (buffer rb) = capacity rb
     \<and> head rb < capacity rb \<and> tail rb < capacity rb"

definition unread :: "'a ConcurrentRingBuffer \<Rightarrow> nat" where
  "unread rb = (if head rb \<le> tail rb then tail rb - head rb else tail rb + capacity rb - head rb)"

definition queued :: "'a ConcurrentRingBuffer \<Rightarrow> 'a list" where
  "queued rb = map (\<lambda>i. buffer rb ! ((head rb + i) mod capacity rb)) [0..<unread rb]"


section \<open>Capture engine (backend/src/sniffer\_engine.cpp)\<close>

text \<open>
  \<^verbatim>\<open>C_PacketData\<close>: the field \<^verbatim>\<open>length\<close> is written \<open>length_field\<close>. The
  \<^verbatim>\<open>int\<close> fields hold the value of the C integer, \<^verbatim>\<open>timestamp\<close> the real number that
  the \<^verbatim>\<open>double\<close> approximates.
\<close>

record C_PacketData =
  data :: "8 word list"
  length_field :: int
  timestamp :: real
  flow_hash :: int
  is_alert :: bool

text \<open>\<^verbatim>\<open>#define MAX_BUFFER_SLOTS 1024\<close>\<close>

definition MAX_BUFFER_SLOTS :: int where
  "MAX_BUFFER_SLOTS = 1024"

text \<open>
  The parameter and the local variables of \<^verbatim>\<open>capture_loop\<close>
  (\<^verbatim>\<open>int local_write_index\<close>, \<^verbatim>\<open>uint32_t flow_counter\<close>). What one iteration
  takes from outside the program, the clock reading in microseconds and the length the
  random generator draws, is a \<open>sample\<close>.
\<close>

record capture_locals =
  interface_name :: string
  local_write_index :: int
  flow_counter :: "32 word"

record sample =
  clock_us :: int
  drawn_length :: int

text \<open>
  The globals \<^verbatim>\<open>g_stop_capture\<close>, \<^verbatim>\<open>g_write_index\<close>, \<^verbatim>\<open>g_shared_buffer\<close>
  (\<open>None\<close> is \<^verbatim>\<open>nullptr\<close>, \<open>Some slots\<close> a pointer to that many slots) and
  \<^verbatim>\<open>g_capture_thread\<close> (a \<^verbatim>\<open>std::thread\<close>: \<open>Some t\<close> when it owns thread \<open>t\<close>,
  \<open>None\<close> when it owns none, as after construction and after \<^verbatim>\<open>detach()\<close>), and
  the threads the process has launched: \<open>threads ! t\<close> is \<open>Some l\<close> while thread \<open>t\<close>
  is inside \<^verbatim>\<open>capture_loop\<close> with the locals \<open>l\<close>, \<open>None\<close> once it has returned.
\<close>

record sniffer =
  g_stop_capture :: bool
  g_write_index :: int
  g_shared_buffer :: "C_PacketData list option"
  g_capture_thread :: "nat option"
  threads :: "capture_locals option list"

text \<open>The globals as their initialisers leave them, before any call.\<close>

definition sniffer_init :: sniffer where
  "sniffer_init = \<lparr>g_stop_capture = False, g_write_index = 0, g_shared_buffer = None,
     g_capture_thread = None, threads = []\<rparr>"

text \<open>
  The body of the \<^verbatim>\<open>while\<close> loop of \<^verbatim>\<open>capture_loop\<close>, from
  \<^verbatim>\<open>if (g_shared_buffer)\<close> to the end of the block (the sleep that follows takes time
  only). A slot outside the region behind the pointer is a fault. \<^verbatim>\<open>++flow_counter\<close>
  wraps at 32 bits and is read as an \<^verbatim>\<open>int\<close> by \<open>sint\<close>; \<^verbatim>\<open>%\<close> on \<^verbatim>\<open>int\<close>
  truncates towards zero, which is \<open>smod\<close>. The local index stays below 1024 (lemma
  \<open>index_ok_run\<close> below), so \<^verbatim>\<open>local_write_index + 1\<close> does not overflow.
\<close>

definition capture_iteration :: "sample \<Rightarrow> capture_locals \<times> sniffer \<Rightarrow> fault + capture_locals \<times> sniffer" where
  "capture_iteration inp ls =
     (let l = fst ls; s = snd ls in
      case g_shared_buffer s of
        None \<Rightarrow> Inr (l, s)
      | Some slots \<Rightarrow>
          if local_write_index l < 0 \<or> int (length slots) \<le> local_write_index l then Inl OutOfBounds
          else
            let i = nat (local_write_index l);
                fc = flow_counter l + 1;
                slot = (slots ! i)\<lparr>timestamp := real_of_int (clock_us inp) / 1000000,
                                   length_field := drawn_length inp,
                                   flow_hash := sint fc,
                                   is_alert := (fc mod 50 = 0)\<rparr>;
                next_index = (local_write_index l + 1) smod MAX_BUFFER_SLOTS
            in Inr (l\<lparr>local_write_index := next_index, flow_counter := fc\<rparr>,
                    s\<lparr>g_shared_buffer := Some (slots[i := slot]), g_write_index := next_index\<rparr>))"

text \<open>
  \<^verbatim>\<open>capture_loop\<close>: the loop tests \<^verbatim>\<open>g_stop_capture\<close> and runs the body until the
  flag is set. The flag is set by another thread, so the loop is run against what the
  rest of the process does to the globals before the \<open>k\<close>-th test of the flag,
  \<open>others k\<close>, and against the samples \<open>inp k\<close>. The result is \<open>None\<close> when the loop
  never returns, \<open>Some (Inl e)\<close> when it stops on a fault and \<open>Some (Inr s)\<close> when it
  returns with the globals \<open>s\<close>.
\<close>

partial_function (option) capture_loop ::
  "(nat \<Rightarrow> sniffer \<Rightarrow> sniffer) \<Rightarrow> (nat \<Rightarrow> sample) \<Rightarrow> nat \<Rightarrow> capture_locals \<times> sniffer \<Rightarrow> (fault + sniffer) option" where
  "capture_loop others inp k ls =
     (let s = others k (snd ls) in
      if g_stop_capture s then Some (Inr s)
      else case capture_iteration (inp k) (fst ls, s) of
             Inl e \<Rightarrow> Some (Inl e)
           | Inr ls' \<Rightarrow> capture_loop others inp (Suc k) ls')"

text \<open>\<^verbatim>\<open>std::thread::joinable()\<close>: the object owns a thread.\<close>

definition joinable :: "nat option \<Rightarrow> bool" where
  "joinable h \<longleftrightarrow> h \<noteq> None"

text \<open>
  \<^verbatim>\<open>start_capture_engine(interface_name, buffer)\<close>, the parameters written \<open>name\<close>
  and \<open>buf\<close>. \<open>launch_ok\<close> says whether the constructor of \<^verbatim>\<open>std::thread\<close>
  succeeds (it throws otherwise). \<open>s1\<close> is the state after the two resets, \<open>s2\<close> the
  state after the assignment to \<^verbatim>\<open>g_capture_thread\<close> (the new thread enters
  \<^verbatim>\<open>capture_loop\<close> with its local index and counter 0), \<open>s3\<close> the state after
  \<^verbatim>\<open>g_capture_thread.detach()\<close>. The result is the status code and the new state.
\<close>

definition start_capture_engine ::
  "string \<Rightarrow> C_PacketData list option \<Rightarrow> bool \<Rightarrow> sniffer \<Rightarrow> int \<times> sniffer" where
  "start_capture_engine name buf launch_ok s =
     (if joinable (g_capture_thread s) then (1, s)
      else
        let s1 = s\<lparr>g_stop_capture := False, g_shared_buffer := buf\<rparr> in
        if launch_ok then
          let t = length (threads s1);
              s2 = s1\<lparr>threads := threads s1 @ [Some \<lparr>interface_name = name, local_write_index = 0, flow_counter = 0\<rparr>],
                      g_capture_thread := Some t\<rparr>;
              s3 = s2\<lparr>g_capture_thread := None\<rparr>
          in (0, s3)
        else (2, s1))"

text \<open>
  \<^verbatim>\<open>stop_capture_engine()\<close> sets the flag and returns 0; \<^verbatim>\<open>get_write_index()\<close>
  reads the published index.
\<close>

definition stop_capture_engine :: "sniffer \<Rightarrow> int \<times> sniffer" where
  "stop_capture_engine s = (0, s\<lparr>g_stop_capture := True\<rparr>)"

definition get_write_index :: "sniffer \<Rightarrow> int" where
  "get_write_index s = g_write_index s"

text \<open>
  What the rest of the process does when it calls \<^verbatim>\<open>stop_capture_engine\<close> before the
  \<open>n\<close>-th test of the flag, and nothing else.
\<close>

definition stop_at :: "nat \<Rightarrow> nat \<Rightarrow> sniffer \<Rightarrow> sniffer" where
  "stop_at n k s = (if k = n then snd (stop_capture_engine s) else s)"

text \<open>
  The process as a whole: a caller starts and stops the engine, and each launched thread
  makes passes through its loop (one test of the flag, then the body or the return), in
  any order. \<open>run es s\<close> executes the events \<open>es\<close> from \<open>s\<close>; \<open>published es\<close> is
  what \<^verbatim>\<open>get_write_index\<close> returns after the events \<open>es\<close> from the initial state,
  \<open>writes_next t es\<close> the slot that the loop of thread \<open>t\<close> writes next then;
  \<open>running s\<close> counts the threads inside \<^verbatim>\<open>capture_loop\<close>.
\<close>

datatype event =
    Start string "C_PacketData list option" bool
  | Stop
  | Pass nat sample

fun step :: "event \<Rightarrow> sniffer \<Rightarrow> fault + sniffer" where
  "step (Start name buf launch_ok) s = Inr (snd (start_capture_engine name buf launch_ok s))"
| "step Stop s = Inr (snd (stop_capture_engine s))"
| "step (Pass t inp) s =
     (if length (threads s) \<le> t then Inr s
      else case threads s ! t of
             None \<Rightarrow> Inr s
           | Some l \<Rightarrow>
               if g_stop_capture s then Inr (s\<lparr>threads := (threads s)[t := None]\<rparr>)
               else case capture_iteration inp (l, s) of
                      Inl e \<Rightarrow> Inl e
                    | Inr ls' \<Rightarrow> Inr ((snd ls')\<lparr>threads := (threads (snd ls'))[t := Some (fst ls')]\<rparr>))"

fun run :: "event list \<Rightarrow> sniffer \<Rightarrow> fault + sniffer" where
  "run [] s = Inr s"
| "run (e # es) s = (case step e s of Inl f \<Rightarrow> Inl f | Inr s' \<Rightarrow> run es s')"

definition published :: "event list \<Rightarrow> int option" where
  "published es = (case run es sniffer_init of Inl f \<Rightarrow> None | Inr s \<Rightarrow> Some (get_write_index s))"

definition writes_next :: "nat \<Rightarrow> event list \<Rightarrow> int option" where
  "writes_next t es =
     (case run es sniffer_init of
        Inl f \<Rightarrow> None
      | Inr s \<Rightarrow> if t < length (threads s) then map_option local_write_index (threads s ! t) else None)"

definition running :: "sniffer \<Rightarrow> nat" where
  "running s = length (filter (\<lambda>x. x \<noteq> None) (threads s))"

text \<open>
  Two invariants of the process: every index, published or local to a running loop, is a
  slot number and \<^verbatim>\<open>g_capture_thread\<close> owns no thread; and while at most one loop has
  been started, its local index is the published one.
\<close>

definition index_ok :: "sniffer \<Rightarrow> bool" where
  "index_ok s \<longleftrightarrow> 0 \<le> g_write_index s \<and> g_write_index s < MAX_BUFFER_SLOTS
     \<and> g_capture_thread s = None
     \<and> (\<forall>l. Some l \<in> set (threads s) \<longrightarrow> 0 \<le> local_write_index l \<and> local_write_index l < MAX_BUFFER_SLOTS)"

definition sole_thread_sync :: "sniffer \<Rightarrow> bool" where
  "sole_thread_sync s \<longleftrightarrow>
     (threads s = [] \<longrightarrow> g_write_index s = 0)
     \<and> (\<forall>l. threads s = [Some l] \<longrightarrow> local_write_index l = g_write_index s)"

text \<open>A zeroed region of 1024 slots and a sample, for the examples below.\<close>

definition zero_slots :: "C_PacketData list" where
  "zero_slots = replicate 1024
     \<lparr>data = replicate 1500 0, length_field = 0, timestamp = 0, flow_hash = 0, is_alert = False\<rparr>"

definition tick :: sample where
  "tick = \<lparr>clock_us = 1000000, drawn_length = 100\<rparr>"


section \<open>Properties of the enforcement engine\<close>

lemma get_decision_small:
  "len \<le> 1500 \<Longrightarrow>
   get_decision this packet_data len = \<lparr>action = default_action this, rule_id = ''DEFAULT_POLICY''\<rparr>"
  by (simp add: get_decision_def not_less [symmetric])

text \<open>
  C1. The claim: after \<^verbatim>\<open>enforce_flow_policy(flow_id, A)\<close>, a packet of that flow with
  length at most 1500 is decided \<^verbatim>\<open>{A, "FLOW_POLICY"}\<close>. The code does not do this:
  with the default action PASS and flow 42 set to DROP, a 500-byte packet (whatever its
  bytes, so whatever flow it belongs to) is decided \<^verbatim>\<open>{PASS, "DEFAULT_POLICY"}\<close>.
\<close>

theorem get_decision_ignores_flow_policy:
  "get_decision (enforce_flow_policy 42 DROP SimpleFlowEnforcer_init) packet_data 500
     = \<lparr>action = PASS, rule_id = ''DEFAULT_POLICY''\<rparr>"
  by (simp add: get_decision_def enforce_flow_policy_def SimpleFlowEnforcer_init_def)

text \<open>No decision carries the rule id \<^verbatim>\<open>FLOW_POLICY\<close>, whatever the table holds.\<close>

lemma get_decision_never_flow_policy:
  "rule_id (get_decision this packet_data len) \<noteq> ''FLOW_POLICY''"
  by (simp add: get_decision_def)

text \<open>
  C2. Every packet whose length argument is greater than 1500 is decided
  \<^verbatim>\<open>{DROP, "JUMBO_PACKET"}\<close>, for every flow-policy table and every default action.
\<close>

theorem get_decision_jumbo:
  "1500 < len \<Longrightarrow>
   get_decision this packet_data len = \<lparr>action = DROP, rule_id = ''JUMBO_PACKET''\<rparr>"
  by (simp add: get_decision_def)

theorem get_decision_jumbo_witness:
  "(1500 :: 16 word) < 2000 \<and>
   get_decision (enforce_flow_policy 42 PASS (set_default_action REJECT SimpleFlowEnforcer_init)) [] 2000
     = \<lparr>action = DROP, rule_id = ''JUMBO_PACKET''\<rparr>"
proof -
  have h: "(1500 :: 16 word) < 2000" by simp
  show ?thesis
    using h get_decision_jumbo [OF h,
        of "enforce_flow_policy 42 PASS (set_default_action REJECT SimpleFlowEnforcer_init)" "[]"]
    by simp
qed

text \<open>
  C3. A packet of length at most 1500 whose flow (however the flow key \<open>flow_of\<close> is
  derived from the packet) has no entry in the table is decided
  \<^verbatim>\<open>{default_action, "DEFAULT_POLICY"}\<close>, where the default action is PASS in a new
  engine, is what \<^verbatim>\<open>set_default_action\<close> stored last, and is not changed by
  \<^verbatim>\<open>enforce_flow_policy\<close>.
\<close>

theorem get_decision_default:
  "get_default_action SimpleFlowEnforcer_init = PASS
   \<and> get_default_action (set_default_action a this) = a
   \<and> get_default_action (enforce_flow_policy f b this) = get_default_action this
   \<and> (len \<le> 1500 \<longrightarrow> enforced_flows this (flow_of packet_data) = None \<longrightarrow>
        get_decision this packet_data len
          = \<lparr>action = get_default_action this, rule_id = ''DEFAULT_POLICY''\<rparr>)"
  by (simp add: get_decision_small get_default_action_def set_default_action_def
      enforce_flow_policy_def SimpleFlowEnforcer_init_def)

theorem get_decision_default_witness:
  "(500 :: 16 word) \<le> 1500
   \<and> enforced_flows (set_default_action REJECT SimpleFlowEnforcer_init) ((\<lambda>_. 7) ([] :: 8 word list)) = None
   \<and> get_decision (set_default_action REJECT SimpleFlowEnforcer_init) [] 500
       = \<lparr>action = REJECT, rule_id = ''DEFAULT_POLICY''\<rparr>"
  using get_decision_default [where this = "set_default_action REJECT SimpleFlowEnforcer_init"
      and len = 500 and flow_of = "\<lambda>_. 7" and packet_data = "[]"]
  by (simp add: set_default_action_def SimpleFlowEnforcer_init_def get_default_action_def)

text \<open>
  C10. \<^verbatim>\<open>enforce_flow_policy(f, a)\<close> changes only the table entry of \<open>f\<close>: the default
  action and the entry of every other key \<open>g\<close> are as before (and the entry of \<open>f\<close>
  is \<open>a\<close>).
\<close>

theorem enforce_flow_policy_frame:
  "get_default_action (enforce_flow_policy f a this) = get_default_action this
   \<and> (\<forall>g. g \<noteq> f \<longrightarrow> enforced_flows (enforce_flow_policy f a this) g = enforced_flows this g)
   \<and> enforced_flows (enforce_flow_policy f a this) f = Some a"
  by (simp add: enforce_flow_policy_def get_default_action_def)

theorem enforce_flow_policy_frame_witness:
  "(7 :: FlowKey) \<noteq> 42
   \<and> get_default_action (enforce_flow_policy 42 DROP (enforce_flow_policy 7 REJECT SimpleFlowEnforcer_init)) = PASS
   \<and> enforced_flows (enforce_flow_policy 42 DROP (enforce_flow_policy 7 REJECT SimpleFlowEnforcer_init)) 7
       = Some REJECT"
  using enforce_flow_policy_frame [of 42 DROP "enforce_flow_policy 7 REJECT SimpleFlowEnforcer_init"]
  by (simp add: enforce_flow_policy_def get_default_action_def SimpleFlowEnforcer_init_def)


section \<open>Properties of the ring buffer\<close>

lemma succ_wrap: "x < c \<Longrightarrow> c < 2 ^ 64 \<Longrightarrow> ((x + 1) mod 2 ^ 64) mod c = (if Suc x = c then 0 else Suc x)" for x c :: nat
  by simp

lemma add_wrap: "a < c \<Longrightarrow> b < c \<Longrightarrow> (a + b) mod c = (if a + b < c then a + b else a + b - c)" for a b c :: nat
  by (simp add: mod_if)

lemma rb_inv_new: "0 < c \<Longrightarrow> c < 2 ^ 64 \<Longrightarrow> rb_inv (ConcurrentRingBuffer_new c z)"
  by (simp add: rb_inv_def ConcurrentRingBuffer_new_def)

lemma queued_new: "queued (ConcurrentRingBuffer_new c z) = []"
  by (simp add: queued_def unread_def ConcurrentRingBuffer_new_def)

lemma length_queued: "length (queued rb) = unread rb"
  by (simp add: queued_def)

lemma unread_bound: "rb_inv rb \<Longrightarrow> unread rb < capacity rb"
  by (auto simp: rb_inv_def unread_def)

lemma push_room:
  assumes "rb_inv rb" "Suc (unread rb) < capacity rb"
  shows "\<exists>rb'. push x rb = Inr (True, rb') \<and> rb_inv rb' \<and> capacity rb' = capacity rb
           \<and> queued rb' = queued rb @ [x]"
proof -
  let ?c = "capacity rb"
  let ?nt = "if Suc (tail rb) = ?c then 0 else Suc (tail rb)"
  let ?rb' = "rb\<lparr>buffer := (buffer rb)[tail rb := x], tail := ?nt\<rparr>"
  from assms have nt: "((tail rb + 1) mod 2 ^ 64) mod ?c = ?nt"
    by (simp add: rb_inv_def)
  from assms have ne: "?nt \<noteq> head rb"
    by (auto simp: rb_inv_def unread_def split: if_splits)
  from assms nt ne have p: "push x rb = Inr (True, ?rb')"
    by (simp add: push_def Let_def rb_inv_def)
  from assms have w: "rb_inv ?rb'" by (auto simp: rb_inv_def)
  from assms have c: "unread ?rb' = Suc (unread rb)"
    by (auto simp: rb_inv_def unread_def split: if_splits)
  have last: "(head rb + unread rb) mod ?c = tail rb"
    using assms by (auto simp: rb_inv_def unread_def add_wrap split: if_splits)
  have other: "tail rb \<noteq> (head rb + i) mod ?c" if "i < unread rb" for i
    using assms that by (auto simp: rb_inv_def unread_def add_wrap split: if_splits)
  have "queued ?rb' = queued rb @ [x]"
    using assms other by (simp add: queued_def c last rb_inv_def nth_list_update_neq)
  with p w show ?thesis by auto
qed

lemma push_full:
  assumes "rb_inv rb" "Suc (unread rb) = capacity rb"
  shows "push x rb = Inr (False, rb)"
proof -
  from assms have "((tail rb + 1) mod 2 ^ 64) mod capacity rb
      = (if Suc (tail rb) = capacity rb then 0 else Suc (tail rb))"
    by (simp add: rb_inv_def)
  moreover from assms have "(if Suc (tail rb) = capacity rb then 0 else Suc (tail rb)) = head rb"
    by (auto simp: rb_inv_def unread_def split: if_splits)
  ultimately show ?thesis
    using assms by (simp add: push_def Let_def rb_inv_def)
qed

lemma push_True:
  assumes "rb_inv rb" "push x rb = Inr (True, rb')"
  shows "rb_inv rb' \<and> capacity rb' = capacity rb \<and> queued rb' = queued rb @ [x]"
proof -
  have "Suc (unread rb) < capacity rb"
  proof (rule ccontr)
    assume "\<not> ?thesis"
    with unread_bound [OF assms(1)] have "Suc (unread rb) = capacity rb" by simp
    from push_full [OF assms(1) this] assms(2) show False by simp
  qed
  from push_room [OF assms(1) this, of x] assms(2) show ?thesis by auto
qed

lemma pop_empty: "rb_inv rb \<Longrightarrow> queued rb = [] \<Longrightarrow> pop rb = Inr (None, rb)"
  by (auto simp: pop_def queued_def unread_def rb_inv_def split: if_splits)

lemma pop_nonempty:
  assumes "rb_inv rb" "queued rb = y # ys"
  shows "\<exists>rb'. pop rb = Inr (Some y, rb') \<and> rb_inv rb' \<and> capacity rb' = capacity rb \<and> queued rb' = ys"
proof -
  let ?c = "capacity rb"
  let ?nh = "if Suc (head rb) = ?c then 0 else Suc (head rb)"
  let ?rb' = "rb\<lparr>head := ?nh\<rparr>"
  from assms(2) have pos: "0 < unread rb"
    using length_queued [of rb] by simp
  then have ne: "head rb \<noteq> tail rb" by (auto simp: unread_def)
  from assms have nh: "((head rb + 1) mod 2 ^ 64) mod ?c = ?nh"
    by (simp add: rb_inv_def)
  have y: "y = buffer rb ! head rb"
    using assms pos by (simp add: queued_def upt_conv_Cons rb_inv_def)
  from assms ne nh y have p: "pop rb = Inr (Some y, ?rb')"
    by (simp add: pop_def Let_def rb_inv_def)
  from assms have w: "rb_inv ?rb'" by (auto simp: rb_inv_def)
  from assms pos have c: "unread ?rb' = unread rb - 1"
    by (auto simp: rb_inv_def unread_def split: if_splits)
  have idx: "(?nh + i) mod ?c = (head rb + Suc i) mod ?c" for i
  proof -
    from assms(1) have "?nh = Suc (head rb) mod ?c" by (simp add: rb_inv_def)
    then have "(?nh + i) mod ?c = (Suc (head rb) mod ?c + i) mod ?c" by simp
    also have "\<dots> = (Suc (head rb) + i) mod ?c" by (rule mod_add_left_eq)
    finally show ?thesis by simp
  qed
  have "queued rb = buffer rb ! head rb # map (\<lambda>i. buffer rb ! ((head rb + Suc i) mod ?c)) [0..<unread rb - 1]"
    using pos assms(1) by (cases "unread rb") (simp_all add: queued_def upt_conv_Cons rb_inv_def map_Suc_upt [symmetric] del: upt_Suc)
  with assms(2) have "ys = map (\<lambda>i. buffer rb ! ((head rb + Suc i) mod ?c)) [0..<unread rb - 1]" by simp
  then have "queued ?rb' = ys"
    unfolding queued_def c using idx by simp
  with p w show ?thesis by auto
qed


lemma push_all_room:
  "rb_inv rb \<Longrightarrow> unread rb + length xs < capacity rb \<Longrightarrow>
   \<exists>rb'. push_all xs rb = Inr (replicate (length xs) True, rb') \<and> rb_inv rb'
     \<and> capacity rb' = capacity rb \<and> queued rb' = queued rb @ xs"
proof (induction xs arbitrary: rb)
  case Nil
  then show ?case by simp
next
  case (Cons x xs)
  from Cons.prems have "Suc (unread rb) < capacity rb" by simp
  from push_room [OF Cons.prems(1) this, of x] obtain rb1 where
    p: "push x rb = Inr (True, rb1)" and w: "rb_inv rb1" and c: "capacity rb1 = capacity rb"
    and q: "queued rb1 = queued rb @ [x]"
    by blast
  from q have "unread rb1 = Suc (unread rb)"
    using length_queued [of rb1] length_queued [of rb] by simp
  with Cons.prems c have "unread rb1 + length xs < capacity rb1" by simp
  from Cons.IH [OF w this] obtain rb2 where
    "push_all xs rb1 = Inr (replicate (length xs) True, rb2)" "rb_inv rb2"
    "capacity rb2 = capacity rb1" "queued rb2 = queued rb1 @ xs"
    by blast
  with p c q show ?case by simp
qed

lemma push_all_True:
  "rb_inv rb \<Longrightarrow> push_all xs rb = Inr (replicate (length xs) True, rb') \<Longrightarrow>
   rb_inv rb' \<and> capacity rb' = capacity rb \<and> queued rb' = queued rb @ xs"
proof (induction xs arbitrary: rb)
  case Nil
  then show ?case by simp
next
  case (Cons x xs)
  from Cons.prems(2) obtain rb1 where
    p: "push x rb = Inr (True, rb1)" and r: "push_all xs rb1 = Inr (replicate (length xs) True, rb')"
    by (auto split: sum.splits prod.splits)
  from push_True [OF Cons.prems(1) p] have
    w: "rb_inv rb1" and c: "capacity rb1 = capacity rb" and q: "queued rb1 = queued rb @ [x]"
    by simp_all
  from Cons.IH [OF w r] c q show ?case by simp
qed

lemma pop_n_queued:
  "rb_inv rb \<Longrightarrow>
   \<exists>rb'. pop_n n rb = Inr (map Some (take n (queued rb)) @ replicate (n - unread rb) None, rb')
     \<and> rb_inv rb' \<and> capacity rb' = capacity rb \<and> queued rb' = drop n (queued rb)"
proof (induction n arbitrary: rb)
  case 0
  then show ?case by simp
next
  case (Suc n)
  show ?case
  proof (cases "queued rb")
    case Nil
    then have z: "unread rb = 0" using length_queued [of rb] by simp
    from pop_empty [OF Suc.prems Nil] have p: "pop rb = Inr (None, rb)" .
    from Suc.IH [OF Suc.prems] obtain rb' where
      "pop_n n rb = Inr (map Some (take n (queued rb)) @ replicate (n - unread rb) None, rb')"
      "rb_inv rb'" "capacity rb' = capacity rb" "queued rb' = drop n (queued rb)"
      by blast
    with p Nil z show ?thesis by simp
  next
    case (Cons y ys)
    then have z: "unread rb = Suc (length ys)" using length_queued [of rb] by simp
    from pop_nonempty [OF Suc.prems Cons] obtain rb1 where
      p: "pop rb = Inr (Some y, rb1)" and w: "rb_inv rb1" and c: "capacity rb1 = capacity rb"
      and q: "queued rb1 = ys"
      by blast
    from q have z1: "unread rb1 = length ys" using length_queued [of rb1] by simp
    from Suc.IH [OF w] obtain rb' where
      "pop_n n rb1 = Inr (map Some (take n (queued rb1)) @ replicate (n - unread rb1) None, rb')"
      "rb_inv rb'" "capacity rb' = capacity rb1" "queued rb' = drop n (queued rb1)"
      by blast
    with p c q Cons z z1 show ?thesis by simp
  qed
qed

text \<open>
  C4. In an empty buffer of capacity \<open>C \<ge> 2\<close> (a new one, or one emptied again),
  \<open>C - 1\<close> consecutive pushes all return true; a further push returns false and leaves
  the buffer (indices and slots) as it was, and \<open>C - 1\<close> pops then return the pushed
  records.
\<close>

theorem push_capacity:
  assumes "rb_inv rb0" and "head rb0 = tail rb0" and "2 \<le> capacity rb0"
    and "length xs = capacity rb0 - 1"
  shows "\<exists>rb. push_all xs rb0 = Inr (replicate (capacity rb0 - 1) True, rb)
           \<and> push x rb = Inr (False, rb)
           \<and> (\<exists>rb'. pop_n (capacity rb0 - 1) rb = Inr (map Some xs, rb'))"
proof -
  from assms(2) have e: "unread rb0 = 0" by (simp add: unread_def)
  then have q0: "queued rb0 = []" using length_queued [of rb0] by simp
  from e assms have "unread rb0 + length xs < capacity rb0" by simp
  from push_all_room [OF assms(1) this] obtain rb where
    p: "push_all xs rb0 = Inr (replicate (length xs) True, rb)" and w: "rb_inv rb"
    and c: "capacity rb = capacity rb0" and q: "queued rb = queued rb0 @ xs"
    by blast
  from q q0 have n: "unread rb = length xs" using length_queued [of rb] by simp
  with assms c have "Suc (unread rb) = capacity rb" by simp
  from push_full [OF w this] have f: "push x rb = Inr (False, rb)" .
  from pop_n_queued [OF w, of "capacity rb0 - 1"] q q0 n assms(4)
  have "\<exists>rb'. pop_n (capacity rb0 - 1) rb = Inr (map Some xs, rb')" by auto
  with p f assms(4) show ?thesis by auto
qed

theorem push_capacity_witness:
  "rb_inv (ConcurrentRingBuffer_new 3 (0::nat))
   \<and> head (ConcurrentRingBuffer_new 3 (0::nat)) = tail (ConcurrentRingBuffer_new 3 (0::nat))
   \<and> 2 \<le> capacity (ConcurrentRingBuffer_new 3 (0::nat))
   \<and> length [10, 20 :: nat] = capacity (ConcurrentRingBuffer_new 3 (0::nat)) - 1
   \<and> (\<exists>rb. push_all [10, 20] (ConcurrentRingBuffer_new 3 (0::nat)) = Inr ([True, True], rb)
           \<and> push 30 rb = Inr (False, rb)
           \<and> (\<exists>rb'. pop_n 2 rb = Inr ([Some 10, Some 20], rb')))"
proof -
  let ?empty = "ConcurrentRingBuffer_new 3 (0::nat)"
  have h1: "rb_inv ?empty" by (simp add: rb_inv_new)
  have h2: "head ?empty = tail ?empty" by (simp add: ConcurrentRingBuffer_new_def)
  have h3: "2 \<le> capacity ?empty" by (simp add: ConcurrentRingBuffer_new_def)
  have h4: "length [10, 20 :: nat] = capacity ?empty - 1" by (simp add: ConcurrentRingBuffer_new_def)
  have c: "capacity ?empty - 1 = Suc (Suc 0)" by (simp add: ConcurrentRingBuffer_new_def)
  from push_capacity [OF h1 h2 h3 h4, of 30] h1 h2 h3 h4 show ?thesis
    unfolding c by (simp add: numeral_2_eq_2)
qed

text \<open>
  C5. When \<open>n\<close> pushes into an empty buffer have all returned true (then \<open>n\<close> is less
  than the capacity), the next \<open>n\<close> pops return the pushed records in the order of the
  pushes, and one more pop returns false.
\<close>

theorem fifo_order:
  assumes "rb_inv rb0" and "head rb0 = tail rb0"
    and "push_all ps rb0 = Inr (replicate (length ps) True, rb)"
  shows "length ps < capacity rb0
         \<and> (\<exists>rb'. pop_n (Suc (length ps)) rb = Inr (map Some ps @ [None], rb'))"
proof -
  from assms(2) have "unread rb0 = 0" by (simp add: unread_def)
  then have q0: "queued rb0 = []" using length_queued [of rb0] by simp
  from push_all_True [OF assms(1) assms(3)] q0 have
    w: "rb_inv rb" and c: "capacity rb = capacity rb0" and q: "queued rb = ps"
    by simp_all
  from q have n: "unread rb = length ps" using length_queued [of rb] by simp
  from unread_bound [OF w] n c have "length ps < capacity rb0" by simp
  moreover from pop_n_queued [OF w, of "Suc (length ps)"] q n
  have "\<exists>rb'. pop_n (Suc (length ps)) rb = Inr (map Some ps @ [None], rb')" by auto
  ultimately show ?thesis by simp
qed

theorem fifo_order_witness:
  "rb_inv (ConcurrentRingBuffer_new 4 (0::nat))
   \<and> head (ConcurrentRingBuffer_new 4 (0::nat)) = tail (ConcurrentRingBuffer_new 4 (0::nat))
   \<and> push_all [1, 2, 3] (ConcurrentRingBuffer_new 4 (0::nat))
       = Inr (replicate (length [1, 2, 3 :: nat]) True,
              \<lparr>capacity = 4, buffer = [1, 2, 3, 0], head = 0, tail = 3\<rparr>)
   \<and> length [1, 2, 3 :: nat] < capacity (ConcurrentRingBuffer_new 4 (0::nat))
   \<and> (\<exists>rb'. pop_n (Suc (length [1, 2, 3 :: nat]))
                \<lparr>capacity = 4, buffer = [1, 2, 3, 0 :: nat], head = 0, tail = 3\<rparr>
              = Inr (map Some [1, 2, 3] @ [None], rb'))"
proof -
  let ?empty = "ConcurrentRingBuffer_new 4 (0::nat)"
  let ?full = "\<lparr>capacity = 4, buffer = [1, 2, 3, 0 :: nat], head = 0, tail = 3\<rparr>"
  have h1: "rb_inv ?empty" by (simp add: rb_inv_new)
  have h2: "head ?empty = tail ?empty" by (simp add: ConcurrentRingBuffer_new_def)
  have four: "replicate 4 (0::nat) = [0, 0, 0, 0]" by (simp add: numeral_eq_Suc)
  have h3: "push_all [1, 2, 3] ?empty = Inr (replicate (length [1, 2, 3 :: nat]) True, ?full)"
    by (simp add: ConcurrentRingBuffer_new_def push_def Let_def four)
  from fifo_order [OF h1 h2 h3] h1 h2 h3 show ?thesis by blast
qed


text \<open>
  Under the invariant neither operation faults, and both keep the invariant: the
  invariant holds in every state that calls of \<^verbatim>\<open>push\<close> and \<^verbatim>\<open>pop\<close> reach
  from a new buffer.
\<close>

lemma push_total:
  assumes "rb_inv rb"
  shows "\<exists>ok rb'. push x rb = Inr (ok, rb') \<and> rb_inv rb' \<and> capacity rb' = capacity rb"
proof (cases "Suc (unread rb) < capacity rb")
  case True
  from push_room [OF assms True, of x] show ?thesis by blast
next
  case False
  with unread_bound [OF assms] have "Suc (unread rb) = capacity rb" by simp
  from push_full [OF assms this, of x] assms show ?thesis by blast
qed

lemma pop_total:
  assumes "rb_inv rb"
  shows "\<exists>r rb'. pop rb = Inr (r, rb') \<and> rb_inv rb' \<and> capacity rb' = capacity rb"
proof (cases "queued rb")
  case Nil
  from pop_empty [OF assms Nil] assms show ?thesis by blast
next
  case (Cons y ys)
  from pop_nonempty [OF assms Cons] show ?thesis by blast
qed

text \<open>
  The scenario of the specification, with the indices wrapping around: in a buffer of
  capacity 4 the pushes of 1, 2, 3 succeed and the push of 4 fails; a pop returns 1; the
  push of 4 now succeeds; the pops return 2, 3, 4 and then fail.
\<close>

lemma ring_scenario:
  "push_all [1, 2, 3, 4] (ConcurrentRingBuffer_new 4 (0::nat))
     = Inr ([True, True, True, False], \<lparr>capacity = 4, buffer = [1, 2, 3, 0], head = 0, tail = 3\<rparr>)
   \<and> pop \<lparr>capacity = 4, buffer = [1, 2, 3, 0 :: nat], head = 0, tail = 3\<rparr>
     = Inr (Some 1, \<lparr>capacity = 4, buffer = [1, 2, 3, 0], head = 1, tail = 3\<rparr>)
   \<and> push 4 \<lparr>capacity = 4, buffer = [1, 2, 3, 0 :: nat], head = 1, tail = 3\<rparr>
     = Inr (True, \<lparr>capacity = 4, buffer = [1, 2, 3, 4], head = 1, tail = 0\<rparr>)
   \<and> pop_n 4 \<lparr>capacity = 4, buffer = [1, 2, 3, 4 :: nat], head = 1, tail = 0\<rparr>
     = Inr ([Some 2, Some 3, Some 4, None], \<lparr>capacity = 4, buffer = [1, 2, 3, 4], head = 0, tail = 0\<rparr>)"
proof -
  have four: "replicate 4 (0::nat) = [0, 0, 0, 0]" by (simp add: numeral_eq_Suc)
  have a: "push_all [1, 2, 3, 4] (ConcurrentRingBuffer_new 4 (0::nat))
     = Inr ([True, True, True, False], \<lparr>capacity = 4, buffer = [1, 2, 3, 0], head = 0, tail = 3\<rparr>)"
    by (simp add: ConcurrentRingBuffer_new_def push_def Let_def four)
  have b: "pop \<lparr>capacity = 4, buffer = [1, 2, 3, 0 :: nat], head = 0, tail = 3\<rparr>
     = Inr (Some 1, \<lparr>capacity = 4, buffer = [1, 2, 3, 0], head = 1, tail = 3\<rparr>)"
    by (simp add: pop_def Let_def)
  have c: "push 4 \<lparr>capacity = 4, buffer = [1, 2, 3, 0 :: nat], head = 1, tail = 3\<rparr>
     = Inr (True, \<lparr>capacity = 4, buffer = [1, 2, 3, 4], head = 1, tail = 0\<rparr>)"
    by (simp add: push_def Let_def)
  have n4: "pop_n 4 rb = pop_n (Suc (Suc (Suc (Suc 0)))) rb" for rb :: "nat ConcurrentRingBuffer"
    by (simp add: numeral_eq_Suc)
  have d: "pop_n 4 \<lparr>capacity = 4, buffer = [1, 2, 3, 4 :: nat], head = 1, tail = 0\<rparr>
     = Inr ([Some 2, Some 3, Some 4, None], \<lparr>capacity = 4, buffer = [1, 2, 3, 4], head = 0, tail = 0\<rparr>)"
    unfolding n4 by (simp add: pop_def Let_def)
  from a b c d show ?thesis by blast
qed


section \<open>Properties of the capture engine\<close>

lemma capture_iteration_null:
  "g_shared_buffer (snd ls) = None \<Longrightarrow> capture_iteration i ls = Inr ls"
  by (simp add: capture_iteration_def)

lemma stop_set_idem: "g_stop_capture s \<Longrightarrow> s\<lparr>g_stop_capture := True\<rparr> = s"
  by (cases s) simp

lemma capture_loop_null_from:
  assumes "g_shared_buffer s = None"
  shows "k \<le> n \<Longrightarrow> capture_loop (stop_at n) inp k (l, s) = Some (Inr (s\<lparr>g_stop_capture := True\<rparr>))"
proof (induction "n - k" arbitrary: k)
  case 0
  then have "k = n" by simp
  then show ?case
    by (subst capture_loop.simps) (simp add: stop_at_def stop_capture_engine_def)
next
  case (Suc d)
  then have kn: "k \<noteq> n" and le: "Suc k \<le> n" and d: "d = n - Suc k" by simp_all
  show ?case
  proof (cases "g_stop_capture s")
    case True
    with kn show ?thesis
      by (subst capture_loop.simps) (simp add: stop_at_def stop_set_idem)
  next
    case False
    with kn assms Suc.hyps(1) [OF d le] show ?thesis
      by (subst capture_loop.simps) (simp add: stop_at_def capture_iteration_null)
  qed
qed


lemma capture_loop_null_spins:
  assumes "capture_loop others inp k ls = Some r"
  shows "\<not> (others = (\<lambda>k. id) \<and> g_shared_buffer (snd ls) = None \<and> \<not> g_stop_capture (snd ls))"
proof (rule capture_loop.raw_induct
    [where P = "\<lambda>others inp k ls r.
        \<not> (others = (\<lambda>k. id) \<and> g_shared_buffer (snd ls) = None \<and> \<not> g_stop_capture (snd ls))",
      OF _ assms])
  fix loop :: "(nat \<Rightarrow> sniffer \<Rightarrow> sniffer) \<Rightarrow> (nat \<Rightarrow> sample) \<Rightarrow> nat \<Rightarrow> capture_locals \<times> sniffer \<Rightarrow> (fault + sniffer) option"
  fix others inp k ls r
  assume IH: "\<And>others inp k ls r. loop others inp k ls = Some r \<Longrightarrow>
      \<not> (others = (\<lambda>k. id) \<and> g_shared_buffer (snd ls) = None \<and> \<not> g_stop_capture (snd ls))"
  assume body: "(let s = others k (snd ls) in
      if g_stop_capture s then Some (Inr s)
      else case capture_iteration (inp k) (fst ls, s) of
             Inl e \<Rightarrow> Some (Inl e)
           | Inr ls' \<Rightarrow> loop others inp (Suc k) ls') = Some r"
  show "\<not> (others = (\<lambda>k. id) \<and> g_shared_buffer (snd ls) = None \<and> \<not> g_stop_capture (snd ls))"
  proof
    assume a: "others = (\<lambda>k. id) \<and> g_shared_buffer (snd ls) = None \<and> \<not> g_stop_capture (snd ls)"
    then have "capture_iteration (inp k) ls = Inr ls"
      by (simp add: capture_iteration_null)
    with a body have "loop others inp (Suc k) ls = Some r"
      by (simp add: Let_def)
    from IH [OF this] a show False by blast
  qed
qed

lemma capture_loop_null_forever:
  assumes "g_shared_buffer s = None" and "\<not> g_stop_capture s"
  shows "capture_loop (\<lambda>k. id) inp k (l, s) = None"
proof (cases "capture_loop (\<lambda>k. id) inp k (l, s)")
  case None
  then show ?thesis .
next
  case (Some r)
  from capture_loop_null_spins [OF this] assms show ?thesis by simp
qed


lemma next_index_range:
  "0 \<le> i \<Longrightarrow> i < MAX_BUFFER_SLOTS \<Longrightarrow>
   (i + 1) smod MAX_BUFFER_SLOTS = (i + 1) mod MAX_BUFFER_SLOTS
   \<and> 0 \<le> (i + 1) smod MAX_BUFFER_SLOTS \<and> (i + 1) smod MAX_BUFFER_SLOTS < MAX_BUFFER_SLOTS"
  by (simp add: signed_modulo_int_def MAX_BUFFER_SLOTS_def sgn_if)

lemma capture_iteration_publishes:
  assumes "capture_iteration inp (l, s) = Inr (l', s')" and "g_shared_buffer s \<noteq> None"
  shows "g_write_index s' = (local_write_index l + 1) smod MAX_BUFFER_SLOTS
     \<and> local_write_index l' = g_write_index s'
     \<and> 0 \<le> local_write_index l
     \<and> threads s' = threads s \<and> g_capture_thread s' = g_capture_thread s
     \<and> g_stop_capture s' = g_stop_capture s \<and> g_shared_buffer s' \<noteq> None"
  using assms by (auto simp: capture_iteration_def Let_def split: option.splits if_splits)

lemma index_ok_init: "index_ok sniffer_init"
  by (simp add: index_ok_def sniffer_init_def MAX_BUFFER_SLOTS_def)

lemma index_ok_start:
  assumes "index_ok s"
  shows "index_ok (snd (start_capture_engine name buf ok s))"
  using assms
  by (auto simp: index_ok_def start_capture_engine_def Let_def joinable_def MAX_BUFFER_SLOTS_def)

lemma index_ok_stop: "index_ok s \<Longrightarrow> index_ok (snd (stop_capture_engine s))"
  by (simp add: index_ok_def stop_capture_engine_def)

lemma index_ok_pass:
  assumes "index_ok s" and "step (Pass t inp) s = Inr s'"
  shows "index_ok s'"
proof (cases "t < length (threads s)")
  case False
  with assms show ?thesis by simp
next
  case True
  show ?thesis
  proof (cases "threads s ! t")
    case None
    with True assms show ?thesis by simp
  next
    case (Some l)
    from True Some have mem: "Some l \<in> set (threads s)"
      by (metis nth_mem)
    with assms(1) have lr: "0 \<le> local_write_index l" "local_write_index l < MAX_BUFFER_SLOTS"
      by (simp_all add: index_ok_def)
    show ?thesis
    proof (cases "g_stop_capture s")
      case st: True
      with True Some assms(2) have s': "s' = s\<lparr>threads := (threads s)[t := None]\<rparr>" by simp
      have "set ((threads s)[t := None]) \<subseteq> insert None (set (threads s))"
        by (rule set_update_subset_insert)
      with assms(1) show ?thesis unfolding s' index_ok_def by auto
    next
      case st: False
      show ?thesis
      proof (cases "g_shared_buffer s")
        case None
        then have "capture_iteration inp (l, s) = Inr (l, s)"
          by (simp add: capture_iteration_null)
        with True Some st assms(2) have "s' = s\<lparr>threads := (threads s)[t := Some l]\<rparr>" by simp
        moreover from True Some have "(threads s)[t := Some l] = threads s"
          by (simp add: list_update_same_conv)
        ultimately show ?thesis using assms(1) by (simp add: index_ok_def)
      next
        case (Some slots)
        from True \<open>threads s ! t = Some l\<close> st assms(2) obtain l1 s1 where
          it: "capture_iteration inp (l, s) = Inr (l1, s1)"
          and s': "s' = s1\<lparr>threads := (threads s1)[t := Some l1]\<rparr>"
          by (auto split: sum.splits)
        from Some have "g_shared_buffer s \<noteq> None" by simp
        from capture_iteration_publishes [OF it this] have
          p: "g_write_index s1 = (local_write_index l + 1) smod MAX_BUFFER_SLOTS"
          "local_write_index l1 = g_write_index s1" "threads s1 = threads s"
          "g_capture_thread s1 = g_capture_thread s"
          by simp_all
        from next_index_range [OF lr] p have
          r: "0 \<le> g_write_index s1" "g_write_index s1 < MAX_BUFFER_SLOTS" by simp_all
        have "set ((threads s)[t := Some l1]) \<subseteq> insert (Some l1) (set (threads s))"
          by (rule set_update_subset_insert)
        with assms(1) r p show ?thesis unfolding s' index_ok_def by auto
      qed
    qed
  qed
qed

lemma index_ok_step: "index_ok s \<Longrightarrow> step e s = Inr s' \<Longrightarrow> index_ok s'"
proof (cases e)
  case (Start name buf ok)
  assume "index_ok s" "step e s = Inr s'"
  with Start index_ok_start [of s name buf ok] show ?thesis by auto
next
  case Stop
  assume "index_ok s" "step e s = Inr s'"
  with Stop index_ok_stop [of s] show ?thesis by auto
next
  case (Pass t inp)
  assume "index_ok s" "step e s = Inr s'"
  with Pass index_ok_pass [of s t inp s'] show ?thesis by simp
qed

lemma index_ok_run: "index_ok s \<Longrightarrow> run es s = Inr s' \<Longrightarrow> index_ok s'"
proof (induction es arbitrary: s)
  case Nil
  then show ?case by simp
next
  case (Cons e es)
  from Cons.prems(2) obtain s1 where e: "step e s = Inr s1" and r: "run es s1 = Inr s'"
    by (auto split: sum.splits)
  from index_ok_step [OF Cons.prems(1) e] have "index_ok s1" .
  from Cons.IH [OF this r] show ?case .
qed


lemma sync_init: "sole_thread_sync sniffer_init"
  by (simp add: sole_thread_sync_def sniffer_init_def)

lemma sync_start:
  assumes "sole_thread_sync s"
  shows "sole_thread_sync (snd (start_capture_engine name buf ok s))"
  using assms
  by (cases "threads s") (auto simp: sole_thread_sync_def start_capture_engine_def Let_def)

lemma sync_stop: "sole_thread_sync s \<Longrightarrow> sole_thread_sync (snd (stop_capture_engine s))"
  by (simp add: sole_thread_sync_def stop_capture_engine_def)

lemma pass_publishes:
  assumes "t < length (threads s)" and "threads s ! t = Some l" and "\<not> g_stop_capture s"
    and "g_shared_buffer s \<noteq> None" and "step (Pass t inp) s = Inr s'"
  shows "\<exists>l'. threads s' = (threads s)[t := Some l']
     \<and> local_write_index l' = g_write_index s'
     \<and> g_write_index s' = (local_write_index l + 1) smod MAX_BUFFER_SLOTS"
proof -
  from assms obtain l1 s1 where
    it: "capture_iteration inp (l, s) = Inr (l1, s1)"
    and s': "s' = s1\<lparr>threads := (threads s1)[t := Some l1]\<rparr>"
    by (auto split: sum.splits)
  from capture_iteration_publishes [OF it assms(4)] s' show ?thesis
    by (intro exI [of _ l1]) simp
qed

lemma sync_pass:
  assumes "sole_thread_sync s" and "step (Pass t inp) s = Inr s'"
  shows "sole_thread_sync s'"
proof (cases "t < length (threads s)")
  case False
  with assms show ?thesis by simp
next
  case True
  show ?thesis
  proof (cases "threads s ! t")
    case None
    with True assms show ?thesis by simp
  next
    case (Some l)
    show ?thesis
    proof (cases "g_stop_capture s")
      case st: True
      with True Some assms(2) have s': "s' = s\<lparr>threads := (threads s)[t := None]\<rparr>" by simp
      from True have "(threads s)[t := None] \<noteq> []" by auto
      moreover from True have "(threads s)[t := None] \<noteq> [Some l']" for l'
        by (cases "threads s"; cases t) auto
      ultimately show ?thesis unfolding s' sole_thread_sync_def by simp
    next
      case st: False
      show ?thesis
      proof (cases "g_shared_buffer s")
        case None
        then have "capture_iteration inp (l, s) = Inr (l, s)"
          by (simp add: capture_iteration_null)
        with True Some st assms(2) have "s' = s\<lparr>threads := (threads s)[t := Some l]\<rparr>" by simp
        moreover from True Some have "(threads s)[t := Some l] = threads s"
          by (simp add: list_update_same_conv)
        ultimately show ?thesis using assms(1) by (simp add: sole_thread_sync_def)
      next
        case (Some slots)
        then have "g_shared_buffer s \<noteq> None" by simp
        from pass_publishes [OF True \<open>threads s ! t = Some l\<close> st this assms(2)] obtain l' where
          p: "threads s' = (threads s)[t := Some l']" "local_write_index l' = g_write_index s'"
          by blast
        from True have ne: "(threads s)[t := Some l'] \<noteq> []" by auto
        have "l'' = l'" if "(threads s)[t := Some l'] = [Some l'']" for l''
          using that True by (cases "threads s"; cases t) auto
        with p ne show ?thesis unfolding sole_thread_sync_def by auto
      qed
    qed
  qed
qed

lemma sync_step: "sole_thread_sync s \<Longrightarrow> step e s = Inr s' \<Longrightarrow> sole_thread_sync s'"
proof (cases e)
  case (Start name buf ok)
  assume "sole_thread_sync s" "step e s = Inr s'"
  with Start sync_start [of s name buf ok] show ?thesis by auto
next
  case Stop
  assume "sole_thread_sync s" "step e s = Inr s'"
  with Stop sync_stop [of s] show ?thesis by auto
next
  case (Pass t inp)
  assume "sole_thread_sync s" "step e s = Inr s'"
  with Pass sync_pass [of s t inp s'] show ?thesis by simp
qed

lemma sync_run: "sole_thread_sync s \<Longrightarrow> run es s = Inr s' \<Longrightarrow> sole_thread_sync s'"
proof (induction es arbitrary: s)
  case Nil
  then show ?case by simp
next
  case (Cons e es)
  from Cons.prems(2) obtain s1 where e: "step e s = Inr s1" and r: "run es s1 = Inr s'"
    by (auto split: sum.splits)
  from sync_step [OF Cons.prems(1) e] have "sole_thread_sync s1" .
  from Cons.IH [OF this r] show ?case .
qed

lemmas eval_sniffer = published_def get_write_index_def start_capture_engine_def
  stop_capture_engine_def capture_iteration_def sniffer_init_def joinable_def Let_def
  signed_modulo_int_def MAX_BUFFER_SLOTS_def zero_slots_def tick_def running_def
  writes_next_def

text \<open>
  C6. The claim: \<^verbatim>\<open>start_capture_engine\<close>, called while a capture loop is running,
  returns 1, launches nothing and leaves the state as it is. The code does not do this: the
  first call returns 0 and leaves one loop running, and a second call right after it
  returns 0 again and leaves two loops running. The handle is detached as soon as the
  thread is launched, so \<^verbatim>\<open>joinable()\<close> is false at every call.
\<close>

theorem start_capture_engine_while_running:
  "fst (start_capture_engine ''eth0'' buf True sniffer_init) = 0
   \<and> running (snd (start_capture_engine ''eth0'' buf True sniffer_init)) = 1
   \<and> fst (start_capture_engine ''eth0'' buf True
            (snd (start_capture_engine ''eth0'' buf True sniffer_init))) = 0
   \<and> running (snd (start_capture_engine ''eth0'' buf True
            (snd (start_capture_engine ''eth0'' buf True sniffer_init)))) = 2"
  by (simp add: eval_sniffer)

text \<open>In no state that the process reaches does \<^verbatim>\<open>start_capture_engine\<close> return 1.\<close>

lemma start_capture_engine_never_1:
  assumes "run es sniffer_init = Inr s"
  shows "fst (start_capture_engine name buf ok s) \<noteq> 1"
proof -
  from index_ok_run [OF index_ok_init assms] have "g_capture_thread s = None"
    by (simp add: index_ok_def)
  then show ?thesis by (simp add: start_capture_engine_def joinable_def Let_def)
qed

text \<open>
  C7. With \<^verbatim>\<open>g_shared_buffer\<close> null, an iteration of the loop returns the locals and
  the globals as they were (it writes no slot, publishes no index and raises no fault);
  when the stop flag is set before the \<open>n\<close>-th test, the loop returns, with nothing
  changed but the flag; and while the flag is never set the loop does not return.
\<close>

theorem capture_loop_null_buffer:
  assumes "g_shared_buffer s = None"
  shows "capture_iteration i (l, s) = Inr (l, s)
     \<and> capture_loop (stop_at n) inp 0 (l, s) = Some (Inr (s\<lparr>g_stop_capture := True\<rparr>))
     \<and> (\<not> g_stop_capture s \<longrightarrow> capture_loop (\<lambda>k. id) inp 0 (l, s) = None)"
  using assms capture_loop_null_from [OF assms, of 0 n inp l] capture_loop_null_forever [of s inp 0 l]
  by (simp add: capture_iteration_null)

theorem capture_loop_null_buffer_witness:
  "g_shared_buffer (snd (start_capture_engine ''eth0'' None True sniffer_init)) = None
   \<and> capture_iteration tick
        (\<lparr>interface_name = ''eth0'', local_write_index = 0, flow_counter = 0\<rparr>,
         snd (start_capture_engine ''eth0'' None True sniffer_init))
     = Inr (\<lparr>interface_name = ''eth0'', local_write_index = 0, flow_counter = 0\<rparr>,
            snd (start_capture_engine ''eth0'' None True sniffer_init))
   \<and> capture_loop (stop_at 3) (\<lambda>k. tick) 0
        (\<lparr>interface_name = ''eth0'', local_write_index = 0, flow_counter = 0\<rparr>,
         snd (start_capture_engine ''eth0'' None True sniffer_init))
     = Some (Inr ((snd (start_capture_engine ''eth0'' None True sniffer_init))\<lparr>g_stop_capture := True\<rparr>))
   \<and> \<not> g_stop_capture (snd (start_capture_engine ''eth0'' None True sniffer_init))
   \<and> capture_loop (\<lambda>k. id) (\<lambda>k. tick) 0
        (\<lparr>interface_name = ''eth0'', local_write_index = 0, flow_counter = 0\<rparr>,
         snd (start_capture_engine ''eth0'' None True sniffer_init))
     = None"
proof -
  let ?s = "snd (start_capture_engine ''eth0'' None True sniffer_init)"
  have h: "g_shared_buffer ?s = None"
    by (simp add: eval_sniffer)
  have running: "\<not> g_stop_capture ?s"
    by (simp add: eval_sniffer)
  from capture_loop_null_buffer [OF h, of tick
      "\<lparr>interface_name = ''eth0'', local_write_index = 0, flow_counter = 0\<rparr>" 3 "\<lambda>k. tick"]
    h running
  show ?thesis by blast
qed

text \<open>
  The range of the published index. In every state that the process reaches,
  \<^verbatim>\<open>get_write_index\<close> returns a slot number, from 0 to \<open>MAX_BUFFER_SLOTS - 1\<close>: it
  returns 0 initially, and every publication stores
  \<open>(local_write_index + 1) mod MAX_BUFFER_SLOTS\<close>, where the local index of the publishing
  loop is a slot number, and leaves that loop's local index equal to the published one (so
  the next publication of the same loop, if no other loop publishes in between, advances
  the published index by exactly 1). While only one loop has been started, every
  publication advances the published index by exactly 1 modulo \<open>MAX_BUFFER_SLOTS\<close>.
\<close>

theorem published_index_range:
  assumes "run es sniffer_init = Inr s"
  shows "get_write_index sniffer_init = 0
     \<and> 0 \<le> get_write_index s \<and> get_write_index s < MAX_BUFFER_SLOTS
     \<and> (\<forall>t l inp s'. t < length (threads s) \<and> threads s ! t = Some l \<and> \<not> g_stop_capture s
            \<and> g_shared_buffer s \<noteq> None \<and> step (Pass t inp) s = Inr s' \<longrightarrow>
          0 \<le> local_write_index l \<and> local_write_index l < MAX_BUFFER_SLOTS
          \<and> get_write_index s' = (local_write_index l + 1) mod MAX_BUFFER_SLOTS
          \<and> map_option local_write_index (threads s' ! t) = Some (get_write_index s')
          \<and> (length (threads s) = 1 \<longrightarrow>
               get_write_index s' = (get_write_index s + 1) mod MAX_BUFFER_SLOTS))"
proof -
  from index_ok_run [OF index_ok_init assms] have ok: "index_ok s" .
  from sync_run [OF sync_init assms] have sy: "sole_thread_sync s" .
  have a: "get_write_index sniffer_init = 0"
    by (simp add: get_write_index_def sniffer_init_def)
  from ok have b: "0 \<le> get_write_index s \<and> get_write_index s < MAX_BUFFER_SLOTS"
    by (simp add: index_ok_def get_write_index_def)
  have c: "0 \<le> local_write_index l \<and> local_write_index l < MAX_BUFFER_SLOTS
          \<and> get_write_index s' = (local_write_index l + 1) mod MAX_BUFFER_SLOTS
          \<and> map_option local_write_index (threads s' ! t) = Some (get_write_index s')
          \<and> (length (threads s) = 1 \<longrightarrow>
               get_write_index s' = (get_write_index s + 1) mod MAX_BUFFER_SLOTS)"
    if h: "t < length (threads s)" "threads s ! t = Some l" "\<not> g_stop_capture s"
      "g_shared_buffer s \<noteq> None" "step (Pass t inp) s = Inr s'"
    for t l inp s'
  proof -
    from h(1,2) have "Some l \<in> set (threads s)" by (metis nth_mem)
    with ok have lr: "0 \<le> local_write_index l" "local_write_index l < MAX_BUFFER_SLOTS"
      by (simp_all add: index_ok_def)
    from pass_publishes [OF h] next_index_range [OF lr]
    have p: "get_write_index s' = (local_write_index l + 1) mod MAX_BUFFER_SLOTS"
      by (auto simp: get_write_index_def)
    from pass_publishes [OF h] h(1)
    have q: "map_option local_write_index (threads s' ! t) = Some (get_write_index s')"
      by (auto simp: get_write_index_def)
    have "local_write_index l = g_write_index s" if "length (threads s) = 1"
    proof -
      from that h(1) have "t = 0" by simp
      with that h(2) have "threads s = [Some l]" by (cases "threads s") auto
      with sy show ?thesis by (simp add: sole_thread_sync_def)
    qed
    with p q lr show ?thesis by (simp add: get_write_index_def)
  qed
  from a b c show ?thesis by blast
qed


theorem published_index_range_witness:
  "run [Start ''eth0'' (Some zero_slots) True, Pass 0 tick] sniffer_init
     = Inr (projr (run [Start ''eth0'' (Some zero_slots) True, Pass 0 tick] sniffer_init))
   \<and> get_write_index (projr (run [Start ''eth0'' (Some zero_slots) True, Pass 0 tick] sniffer_init)) = 1
   \<and> step (Pass 0 tick) (projr (run [Start ''eth0'' (Some zero_slots) True, Pass 0 tick] sniffer_init))
     = Inr (projr (run [Start ''eth0'' (Some zero_slots) True, Pass 0 tick, Pass 0 tick] sniffer_init))
   \<and> get_write_index (projr (run [Start ''eth0'' (Some zero_slots) True, Pass 0 tick, Pass 0 tick] sniffer_init)) = 2"
proof -
  let ?es = "[Start ''eth0'' (Some zero_slots) True, Pass 0 tick]"
  let ?s = "projr (run ?es sniffer_init)"
  let ?s' = "projr (run [Start ''eth0'' (Some zero_slots) True, Pass 0 tick, Pass 0 tick] sniffer_init)"
  let ?l = "\<lparr>interface_name = ''eth0'', local_write_index = 1, flow_counter = 1\<rparr>"
  have r: "run ?es sniffer_init = Inr ?s" by (simp add: eval_sniffer)
  have st: "step (Pass 0 tick) ?s = Inr ?s'" by (simp add: eval_sniffer)
  have h: "0 < length (threads ?s) \<and> threads ?s ! 0 = Some ?l \<and> \<not> g_stop_capture ?s
      \<and> g_shared_buffer ?s \<noteq> None"
    by (simp add: eval_sniffer)
  have one: "length (threads ?s) = 1" by (simp add: eval_sniffer)
  have v: "get_write_index ?s = 1" by (simp add: eval_sniffer)
  from published_index_range [OF r] h st one
  have "get_write_index ?s' = (get_write_index ?s + 1) mod MAX_BUFFER_SLOTS" by blast
  with v have "get_write_index ?s' = 2" by (simp add: MAX_BUFFER_SLOTS_def)
  with r st v show ?thesis by blast
qed

text \<open>
  C9. The claim: the published index starts at 0, every publication advances it by exactly
  1 modulo \<open>MAX_BUFFER_SLOTS\<close>, and so it is always a slot number. The code does not do
  this across a restart. After a start, two publications, a stop, the return of the loop
  and a second start, \<^verbatim>\<open>get_write_index\<close> returns 2 while the new loop writes slot 0
  next (\<^verbatim>\<open>g_write_index\<close> is documented as the index where the thread will write the
  next packet, and the reset in \<^verbatim>\<open>start_capture_engine\<close> leaves it as it was); the
  first publication of the new loop then stores 1, which is not 2 advanced by 1.
\<close>

theorem restart_republishes:
  "published [Start ''eth0'' (Some zero_slots) True, Pass 0 tick, Pass 0 tick, Stop, Pass 0 tick,
              Start ''eth0'' (Some zero_slots) True] = Some 2
   \<and> writes_next 1 [Start ''eth0'' (Some zero_slots) True, Pass 0 tick, Pass 0 tick, Stop, Pass 0 tick,
              Start ''eth0'' (Some zero_slots) True] = Some 0
   \<and> published [Start ''eth0'' (Some zero_slots) True, Pass 0 tick, Pass 0 tick, Stop, Pass 0 tick,
              Start ''eth0'' (Some zero_slots) True, Pass 1 tick] = Some 1
   \<and> Some (1::int) \<noteq> Some ((2 + 1) mod MAX_BUFFER_SLOTS)"
  by (simp add: eval_sniffer)

end
